theory Spec2Isabelle
  imports Main
begin

section \<open>The coroutine promise of folly/experimental/coro/Promise.h\<close>

subsection \<open>Data model\<close>

text \<open>The lifecycle states, \<^verbatim>\<open>enum class PromiseState\<close>.\<close>

datatype PromiseState = EMPTY | DETACHED | HAS_AWAITER | HAS_RESULT

text \<open>
  Modelled from the spec: \<^verbatim>\<open>folly::Try<T>\<close> (folly/Try.h is not among the sources).
  The spec's result cell "holds empty / value / error". The error payload is opaque.
\<close>

datatype ('t, 'x) Try = Nothing | Value 't | Exception 'x

text \<open>
  A \<^verbatim>\<open>coroutine_handle<>\<close> and an \<^verbatim>\<open>Executor*\<close> are addresses; they are only
  stored, compared and resumed. The null pointer is address 0.
\<close>

type_synonym coroutine_handle = nat
type_synonym Executor_ptr = nat

text \<open>
  \<^verbatim>\<open>class Promise<T> : public PromiseBase<T>\<close>: the inherited \<^verbatim>\<open>result_\<close> and the three private
  members \<^verbatim>\<open>state_\<close>, \<^verbatim>\<open>awaiter_\<close> and \<^verbatim>\<open>executor_\<close>. A constant of Isabelle cannot end
  with an underscore, so each member is written with the suffix \<open>m\<close>. The field
  \<open>result_writes\<close> is a ghost counter that is not in the source: it counts the
  assignments to \<^verbatim>\<open>result_\<close> executed so far, so that "written once" can be stated. No
  function of the source reads it.
\<close>

record ('t, 'x) Promise =
  result_m :: "('t, 'x) Try"
  state_m :: PromiseState
  awaiter_m :: coroutine_handle
  executor_m :: Executor_ptr
  result_writes :: nat

text \<open>
  \<^verbatim>\<open>Promise() {}\<close> with the member initialisers \<^verbatim>\<open>state_{State::EMPTY}\<close> and
  \<^verbatim>\<open>executor_{nullptr}\<close>. What a default-constructed \<^verbatim>\<open>Try<T>\<close> holds is decided in the
  absent Try.h, so it is a parameter.
\<close>

definition Promise_ctor :: "('t, 'x) Try \<Rightarrow> ('t, 'x) Promise" where
  "Promise_ctor default_Try =
     \<lparr>result_m = default_Try, state_m = EMPTY, awaiter_m = 0, executor_m = 0, result_writes = 0\<rparr>"

subsection \<open>Recording the result\<close>

text \<open>
  \<^verbatim>\<open>PromiseBase<T>::return_value\<close>: \<^verbatim>\<open>result_ = Try<T>(std::forward<U>(value))\<close>.
\<close>

definition return_value :: "'t \<Rightarrow> ('t, 'x) Promise \<Rightarrow> ('t, 'x) Promise" where
  "return_value v p = p\<lparr>result_m := Value v, result_writes := Suc (result_writes p)\<rparr>"

text \<open>\<^verbatim>\<open>PromiseBase<void>::return_void\<close> has an empty body.\<close>

definition return_void :: "(unit, 'x) Promise \<Rightarrow> (unit, 'x) Promise" where
  "return_void p = p"

text \<open>
  \<^verbatim>\<open>Promise<T>::unhandled_exception\<close>:
  \<^verbatim>\<open>result_ = Try<T>(exception_wrapper::from_exception_ptr(std::current_exception()))\<close>.
  The exception in flight is ambient in C++; here it is the argument.
\<close>

definition unhandled_exception :: "'x \<Rightarrow> ('t, 'x) Promise \<Rightarrow> ('t, 'x) Promise" where
  "unhandled_exception current_exception p =
     p\<lparr>result_m := Exception current_exception, result_writes := Suc (result_writes p)\<rparr>"

text \<open>
  How a coroutine body ends. The compiler wraps the body as
  \<^verbatim>\<open>try { body } catch (...) { promise.unhandled_exception(); }\<close> and turns
  \<^verbatim>\<open>co_return v\<close> into \<^verbatim>\<open>promise.return_value(v)\<close>, or \<^verbatim>\<open>co_return\<close> in a
  \<^verbatim>\<open>void\<close> coroutine into \<^verbatim>\<open>promise.return_void()\<close>.
\<close>

datatype ('t, 'x) completion = Returns 't | Throws 'x

definition body_completes :: "('t, 'x) completion \<Rightarrow> ('t, 'x) Promise \<Rightarrow> ('t, 'x) Promise" where
  "body_completes c p =
     (case c of Returns v \<Rightarrow> return_value v p | Throws e \<Rightarrow> unhandled_exception e p)"

definition body_completes_void :: "(unit, 'x) completion \<Rightarrow> (unit, 'x) Promise \<Rightarrow> (unit, 'x) Promise" where
  "body_completes_void c p =
     (case c of Returns u \<Rightarrow> return_void p | Throws e \<Rightarrow> unhandled_exception e p)"

subsection \<open>Atomics, assertions and the other actors\<close>

text \<open>
  \<^verbatim>\<open>std::atomic<State>::compare_exchange_weak(expected, desired)\<close> on a memory cell holding
  \<open>mem\<close>. It may fail spuriously, which is the flag \<open>spurious\<close>. The result is
  (success, new content of the cell, new content of \<open>expected\<close>): on failure the value
  read is stored into \<open>expected\<close>.
\<close>

definition compare_exchange_weak ::
  "bool \<Rightarrow> PromiseState \<Rightarrow> PromiseState \<Rightarrow> PromiseState \<Rightarrow> bool \<times> PromiseState \<times> PromiseState" where
  "compare_exchange_weak spurious mem expected desired =
     (if mem = expected \<and> \<not> spurious then (True, desired, expected) else (False, mem, mem))"

text \<open>
  glog's \<^verbatim>\<open>DCHECK(cond)\<close>: compiled out when \<^verbatim>\<open>NDEBUG\<close> is defined, otherwise a fatal
  error when the condition is false. \<open>DCHECK ndebug cond\<close> tells whether execution
  goes on.
\<close>

datatype error = DCHECK_failed

definition DCHECK :: "bool \<Rightarrow> bool \<Rightarrow> bool" where
  "DCHECK ndebug cond = (ndebug \<or> cond)"

text \<open>
  Before the result is published, the words of a promise that another thread may touch
  are \<^verbatim>\<open>state_\<close> and \<^verbatim>\<open>awaiter_\<close>. An interference is what the other threads do to
  these two words between two atomic operations of the finalizing thread.
\<close>

type_synonym interference = "PromiseState \<times> coroutine_handle \<Rightarrow> PromiseState \<times> coroutine_handle"

definition interfere :: "interference \<Rightarrow> ('t, 'x) Promise \<Rightarrow> ('t, 'x) Promise" where
  "interfere f p = p\<lparr>state_m := fst (f (state_m p, awaiter_m p)), awaiter_m := snd (f (state_m p, awaiter_m p))\<rparr>"

text \<open>
  The promise as the other threads have made it when this thread executes
  compare-exchange \<open>n\<close>, for as long as its own exchanges have failed (a failed exchange
  stores nothing): the interferences \<open>env 0\<close>, ..., \<open>env (n - 1)\<close> applied in turn.
\<close>

primrec disturbed :: "(nat \<Rightarrow> interference) \<Rightarrow> ('t, 'x) Promise \<Rightarrow> nat \<Rightarrow> ('t, 'x) Promise" where
  "disturbed env p 0 = p"
| "disturbed env p (Suc n) = interfere (env n) (disturbed env p n)"

subsection \<open>The final suspend point\<close>

text \<open>\<^verbatim>\<open>FinalSuspender::await_ready\<close>.\<close>

definition await_ready :: "('t, 'x) Promise \<Rightarrow> bool" where
  "await_ready promise = (state_m promise = DETACHED)"

text \<open>
  What \<^verbatim>\<open>FinalSuspender::await_suspend\<close> did: its return value, the last value of its
  local \<^verbatim>\<open>state\<close>, every value \<^verbatim>\<open>state\<close> had at the head of the loop body, the number of
  compare-exchange operations executed, the stores to \<^verbatim>\<open>state_\<close> it made (old and new
  content), the handles it resumed, and the promise it leaves.
\<close>

record ('t, 'x) suspended =
  returned :: bool
  observed :: PromiseState
  observations :: "PromiseState list"
  cas_attempts :: nat
  cas_writes :: "(PromiseState \<times> PromiseState) list"
  resumed :: "coroutine_handle list"
  after :: "('t, 'x) Promise"

text \<open>
  The \<^verbatim>\<open>do { ... } while (!compare_exchange_weak(...))\<close> loop. Compare-exchange operations
  are counted from 0: \<open>env n\<close> is the interference between the previous atomic operation
  of this thread (the load, or the failed exchange before) and exchange \<open>n\<close>, and \<open>spur n\<close>
  says whether exchange \<open>n\<close> fails spuriously; \<open>seen\<close> collects the values of \<^verbatim>\<open>state\<close>. The loop leaves either through
  \<^verbatim>\<open>return false\<close>, through the failed assertion, or by a successful exchange; then
  \<open>returned\<close> is still to be set by the caller and \<open>resumed\<close> is empty.
  Nothing bounds the number of iterations, so not returning is the value \<open>None\<close>.
\<close>

partial_function (option) cas_loop ::
  "bool \<Rightarrow> (nat \<Rightarrow> interference) \<Rightarrow> (nat \<Rightarrow> bool) \<Rightarrow> nat \<Rightarrow> PromiseState list \<Rightarrow>
   ('t, 'x) Promise \<Rightarrow> PromiseState \<Rightarrow> (error + ('t, 'x) suspended) option" where
  "cas_loop ndebug env spur n seen promise state =
     (if state = DETACHED then
        Some (Inr \<lparr>returned = False, observed = state, observations = seen @ [state],
                   cas_attempts = n, cas_writes = [], resumed = [], after = promise\<rparr>)
      else if \<not> DCHECK ndebug (state \<noteq> HAS_RESULT) then Some (Inl DCHECK_failed)
      else
        let q = interfere (env n) promise;
            r = compare_exchange_weak (spur n) (state_m q) state HAS_RESULT
        in if fst r then
             Some (Inr \<lparr>returned = True, observed = snd (snd r), observations = seen @ [state],
                        cas_attempts = Suc n, cas_writes = [(state_m q, fst (snd r))],
                        resumed = [], after = q\<lparr>state_m := fst (snd r)\<rparr>\<rparr>)
           else cas_loop ndebug env spur (Suc n) (seen @ [state]) (q\<lparr>state_m := fst (snd r)\<rparr>) (snd (snd r)))"

text \<open>
  \<^verbatim>\<open>FinalSuspender::await_suspend\<close>: the acquire load, the loop, and after a successful
  exchange \<^verbatim>\<open>if (state == State::HAS_AWAITER) promise_.awaiter_.resume(); return true;\<close>.
  Its \<^verbatim>\<open>coroutine_handle<>\<close> parameter is unnamed and unused. The atomic operations are
  interleaved with the other threads in one total order; the memory orders are not
  modelled. The handle resumed is the \<^verbatim>\<open>awaiter_\<close> of the promise as the successful exchange
  found it: once HAS_RESULT is published no other thread stores to \<^verbatim>\<open>awaiter_\<close>.
\<close>

definition await_suspend ::
  "bool \<Rightarrow> (nat \<Rightarrow> interference) \<Rightarrow> (nat \<Rightarrow> bool) \<Rightarrow> ('t, 'x) Promise \<Rightarrow>
   (error + ('t, 'x) suspended) option" where
  "await_suspend ndebug env spur promise =
     (let state = state_m promise in
      case cas_loop ndebug env spur 0 [] promise state of
        None \<Rightarrow> None
      | Some (Inl e) \<Rightarrow> Some (Inl e)
      | Some (Inr l) \<Rightarrow>
          if \<not> returned l then Some (Inr l)
          else if observed l = HAS_AWAITER
            then Some (Inr (l\<lparr>resumed := [awaiter_m (after l)]\<rparr>))
            else Some (Inr l))"

text \<open>
  The outcome of \<^verbatim>\<open>await_suspend\<close> with the result cell of the promise it leaves set to
  \<open>c\<close>; used to compare runs on promises that differ only in \<^verbatim>\<open>result_\<close>.
\<close>

definition carry :: "('t, 'x) Try \<Rightarrow> error + ('t, 'x) suspended \<Rightarrow> error + ('t, 'x) suspended" where
  "carry c y = map_sum id (\<lambda>r. r\<lparr>after := (after r)\<lparr>result_m := c\<rparr>\<rparr>) y"

text \<open>
  \<^verbatim>\<open>co_await promise.final_suspend()\<close> as the compiler runs it: \<^verbatim>\<open>final_suspend\<close> hands the
  promise to a \<^verbatim>\<open>FinalSuspender\<close>; when \<^verbatim>\<open>await_ready()\<close> is true, or \<^verbatim>\<open>await_suspend\<close>
  returns false, the coroutine is not suspended and runs to its end, where the frame
  destroys itself; otherwise the frame stays suspended at its final suspend point.
  \<open>gap\<close> is the interference between the load of \<^verbatim>\<open>await_ready\<close> and the load of
  \<^verbatim>\<open>await_suspend\<close>.
\<close>

datatype frame_fate = Stays_suspended | Runs_to_end

record ('t, 'x) finalized =
  fate :: frame_fate
  woken :: "coroutine_handle list"
  frame :: "('t, 'x) Promise"

definition final_suspend_point ::
  "bool \<Rightarrow> interference \<Rightarrow> (nat \<Rightarrow> interference) \<Rightarrow> (nat \<Rightarrow> bool) \<Rightarrow> ('t, 'x) Promise \<Rightarrow>
   (error + ('t, 'x) finalized) option" where
  "final_suspend_point ndebug gap env spur promise =
     (if await_ready promise then Some (Inr \<lparr>fate = Runs_to_end, woken = [], frame = promise\<rparr>)
      else case await_suspend ndebug env spur (interfere gap promise) of
        None \<Rightarrow> None
      | Some (Inl e) \<Rightarrow> Some (Inl e)
      | Some (Inr r) \<Rightarrow>
          Some (Inr \<lparr>fate = (if returned r then Stays_suspended else Runs_to_end),
                     woken = resumed r, frame = after r\<rparr>))"

text \<open>A coroutine whose body ends and which then reaches its final suspend point.\<close>

definition completes ::
  "bool \<Rightarrow> interference \<Rightarrow> (nat \<Rightarrow> interference) \<Rightarrow> (nat \<Rightarrow> bool) \<Rightarrow> ('t, 'x) completion \<Rightarrow>
   ('t, 'x) Promise \<Rightarrow> (error + ('t, 'x) finalized) option" where
  "completes ndebug gap env spur c p = final_suspend_point ndebug gap env spur (body_completes c p)"

definition completes_void ::
  "bool \<Rightarrow> interference \<Rightarrow> (nat \<Rightarrow> interference) \<Rightarrow> (nat \<Rightarrow> bool) \<Rightarrow> (unit, 'x) completion \<Rightarrow>
   (unit, 'x) Promise \<Rightarrow> (error + (unit, 'x) finalized) option" where
  "completes_void ndebug gap env spur c p =
     final_suspend_point ndebug gap env spur (body_completes_void c p)"

subsection \<open>Await dispatch\<close>

text \<open>
  Modelled from the spec: \<^verbatim>\<open>coro::Future<U>\<close> (only forward-declared in the source): a
  "shared handle to an already-running frame". \<^verbatim>\<open>await_transform\<close> reads
  \<^verbatim>\<open>future.promise_->executor_\<close>; the handle is modelled by the promise it points to.
\<close>

record ('u, 'x) Future =
  promise_m :: "('u, 'x) Promise"

text \<open>
  Modelled from the spec: \<^verbatim>\<open>AwaitWrapper<T>\<close> (folly/experimental/coro/AwaitWrapper.h is not
  among the sources), the await adapter that "wraps an awaited value together with a target
  executor". The model keeps what \<^verbatim>\<open>create\<close> was given: the awaitable, whether it came
  as a pointer, and the executor if one was passed. Without an executor the awaiter is
  attached directly ("zero extra hop"); with one the adapter performs "exactly one
  deliberate executor hop after the value is ready", onto that executor.
\<close>

record 'a AwaitWrapper =
  awaitable :: 'a
  by_pointer :: bool
  via :: "Executor_ptr option"

definition AwaitWrapper_create :: "'a \<Rightarrow> bool \<Rightarrow> 'a AwaitWrapper" where
  "AwaitWrapper_create a ptr = \<lparr>awaitable = a, by_pointer = ptr, via = None\<rparr>"

definition AwaitWrapper_create_via :: "'a \<Rightarrow> bool \<Rightarrow> Executor_ptr \<Rightarrow> 'a AwaitWrapper" where
  "AwaitWrapper_create_via a ptr executor = \<lparr>awaitable = a, by_pointer = ptr, via = Some executor\<rparr>"

definition executor_hops :: "'a AwaitWrapper \<Rightarrow> Executor_ptr list" where
  "executor_hops w = (case via w of None \<Rightarrow> [] | Some executor \<Rightarrow> [executor])"

text \<open>\<^verbatim>\<open>Promise<T>::await_transform(Future<U>& future)\<close>.\<close>

definition await_transform_Future ::
  "('u, 'x) Future \<Rightarrow> ('t, 'x) Promise \<Rightarrow> ('u, 'x) Future AwaitWrapper" where
  "await_transform_Future future p =
     (if executor_m (promise_m future) = executor_m p then AwaitWrapper_create future False
      else AwaitWrapper_create_via future False (executor_m p))"

text \<open>\<^verbatim>\<open>Promise<T>::await_transform(Future<U>&& future)\<close>, which passes \<^verbatim>\<open>&future\<close>.\<close>

definition await_transform_Future_rvalue ::
  "('u, 'x) Future \<Rightarrow> ('t, 'x) Promise \<Rightarrow> ('u, 'x) Future AwaitWrapper" where
  "await_transform_Future_rvalue future p =
     (if executor_m (promise_m future) = executor_m p then AwaitWrapper_create future True
      else AwaitWrapper_create_via future True (executor_m p))"

text \<open>
  Modelled from the spec: \<^verbatim>\<open>AwaitableReady<T>\<close> (folly/experimental/coro/Utils.h is not among
  the sources): the query is "resolved immediately as a ready value, never suspends", so
  its \<^verbatim>\<open>await_ready\<close> is true and its \<^verbatim>\<open>await_resume\<close> gives the value it was built from.
\<close>

record 'a AwaitableReady =
  ready_value :: 'a

definition AwaitableReady_await_ready :: "'a AwaitableReady \<Rightarrow> bool" where
  "AwaitableReady_await_ready w = True"

definition AwaitableReady_await_resume :: "'a AwaitableReady \<Rightarrow> 'a" where
  "AwaitableReady_await_resume w = ready_value w"

text \<open>\<^verbatim>\<open>Promise<T>::await_transform(getCurrentExecutor)\<close>.\<close>

definition await_transform_getCurrentExecutor :: "('t, 'x) Promise \<Rightarrow> Executor_ptr AwaitableReady" where
  "await_transform_getCurrentExecutor p = \<lparr>ready_value = executor_m p\<rparr>"

subsection \<open>The lifecycle state machine and the environment\<close>


text \<open>
  An interference is quiet when it leaves \<^verbatim>\<open>state_\<close> alone, and it is an external I1 step
  when it changes \<^verbatim>\<open>state_\<close> at most along EMPTY to DETACHED or EMPTY to HAS_AWAITER, the
  two edges that belong to the actor other than the finalizer.
\<close>

definition quiet :: "interference \<Rightarrow> bool" where
  "quiet f = (\<forall>s a. fst (f (s, a)) = s)"

definition I1_external :: "interference \<Rightarrow> bool" where
  "I1_external f =
     (\<forall>s a. fst (f (s, a)) = s \<or> (s = EMPTY \<and> (fst (f (s, a)) = DETACHED \<or> fst (f (s, a)) = HAS_AWAITER)))"

text \<open>
  The single external actor: every interference is an external I1 step, and all but at
  most one of them are quiet.
\<close>

definition single_external_actor :: "(nat \<Rightarrow> interference) \<Rightarrow> bool" where
  "single_external_actor env = (\<exists>j. \<forall>n. I1_external (env n) \<and> (n = j \<or> quiet (env n)))"

text \<open>
  Modelled from the spec: the two external operations, whose code (the \<^verbatim>\<open>Future\<close> class) is
  not among the sources. \<open>markDetached\<close> "transitions EMPTY to DETACHED if still EMPTY";
  \<open>registerAwaiter\<close> goes "atomically EMPTY to HAS_AWAITER, storing the continuation".
\<close>

definition markDetached :: interference where
  "markDetached = (\<lambda>(s, a). if s = EMPTY then (DETACHED, a) else (s, a))"

definition registerAwaiter :: "coroutine_handle \<Rightarrow> interference" where
  "registerAwaiter h = (\<lambda>(s, a). if s = EMPTY then (HAS_AWAITER, h) else (s, a))"

text \<open>Schedules: no interference at all, or one interference before a given compare-exchange.\<close>

definition no_interference :: "nat \<Rightarrow> interference" where
  "no_interference n = id"

definition once :: "nat \<Rightarrow> interference \<Rightarrow> nat \<Rightarrow> interference" where
  "once k f n = (if n = k then f else id)"

text \<open>
  Spurious failures: none, at every compare-exchange, or at the first \<open>k\<close> of them.
\<close>

definition never_spurious :: "nat \<Rightarrow> bool" where
  "never_spurious n = False"

definition always_spurious :: "nat \<Rightarrow> bool" where
  "always_spurious n = True"

definition spurious_first :: "nat \<Rightarrow> nat \<Rightarrow> bool" where
  "spurious_first k n = (n < k)"

section \<open>The compare-exchange loop, branch by branch\<close>

lemma state_m_interfere: "state_m (interfere f p) = fst (f (state_m p, awaiter_m p))"
  by (simp add: interfere_def)

lemma interfere_restore: "(interfere f p)\<lparr>state_m := fst (f (state_m p, awaiter_m p))\<rparr> = interfere f p"
  by (simp add: interfere_def)

text \<open>One unfolding of the loop for each way through its body.\<close>

lemma cas_loop_detached:
  "cas_loop nd env spur n seen p DETACHED =
     Some (Inr \<lparr>returned = False, observed = DETACHED, observations = seen @ [DETACHED],
                cas_attempts = n, cas_writes = [], resumed = [], after = p\<rparr>)"
  by (subst cas_loop.simps) simp

lemma cas_loop_dcheck:
  "\<not> nd \<Longrightarrow> cas_loop nd env spur n seen p HAS_RESULT = Some (Inl DCHECK_failed)"
  by (subst cas_loop.simps) (simp add: DCHECK_def)

lemma cas_loop_success:
  "st \<noteq> DETACHED \<Longrightarrow> nd \<or> st \<noteq> HAS_RESULT \<Longrightarrow>
   fst (env n (state_m p, awaiter_m p)) = st \<Longrightarrow> \<not> spur n \<Longrightarrow>
   cas_loop nd env spur n seen p st =
     Some (Inr \<lparr>returned = True, observed = st, observations = seen @ [st],
                cas_attempts = Suc n, cas_writes = [(st, HAS_RESULT)], resumed = [],
                after = (interfere (env n) p)\<lparr>state_m := HAS_RESULT\<rparr>\<rparr>)"
  by (subst cas_loop.simps)
     (simp add: DCHECK_def Let_def compare_exchange_weak_def state_m_interfere)

lemma cas_loop_retry:
  "st \<noteq> DETACHED \<Longrightarrow> nd \<or> st \<noteq> HAS_RESULT \<Longrightarrow>
   fst (env n (state_m p, awaiter_m p)) \<noteq> st \<or> spur n \<Longrightarrow>
   cas_loop nd env spur n seen p st =
     cas_loop nd env spur (Suc n) (seen @ [st]) (interfere (env n) p) (state_m (interfere (env n) p))"
  by (subst cas_loop.simps)
     (auto simp add: DCHECK_def Let_def compare_exchange_weak_def state_m_interfere interfere_restore)


text \<open>
  Induction over a run of the loop that returns: the three exits and the retry, with the
  build mode, the interference and the spurious failures fixed.
\<close>

lemma cas_loop_cases [consumes 1, case_names detached dcheck success retry]:
  assumes run: "cas_loop nd env spur n seen p st = Some y"
    and detached: "\<And>n seen p.
        P n seen p DETACHED
          (Inr \<lparr>returned = False, observed = DETACHED, observations = seen @ [DETACHED],
                cas_attempts = n, cas_writes = [], resumed = [], after = p\<rparr>)"
    and dcheck: "\<And>n seen p. \<not> nd \<Longrightarrow> P n seen p HAS_RESULT (Inl DCHECK_failed)"
    and success: "\<And>n seen p st. st \<noteq> DETACHED \<Longrightarrow> nd \<or> st \<noteq> HAS_RESULT \<Longrightarrow>
        fst (env n (state_m p, awaiter_m p)) = st \<Longrightarrow> \<not> spur n \<Longrightarrow>
        P n seen p st
          (Inr \<lparr>returned = True, observed = st, observations = seen @ [st],
                cas_attempts = Suc n, cas_writes = [(st, HAS_RESULT)], resumed = [],
                after = (interfere (env n) p)\<lparr>state_m := HAS_RESULT\<rparr>\<rparr>)"
    and retry: "\<And>n seen p st y. st \<noteq> DETACHED \<Longrightarrow> nd \<or> st \<noteq> HAS_RESULT \<Longrightarrow>
        fst (env n (state_m p, awaiter_m p)) \<noteq> st \<or> spur n \<Longrightarrow>
        P (Suc n) (seen @ [st]) (interfere (env n) p) (state_m (interfere (env n) p)) y \<Longrightarrow>
        P n seen p st y"
  shows "P n seen p st y"
proof -
  define Q where "Q = (\<lambda>nd' env' spur' n seen (p :: ('a, 'b) Promise) st y.
            nd' = nd \<and> env' = env \<and> spur' = spur \<longrightarrow> P n seen p st y)"
  have "Q nd env spur n seen p st y"
  proof (rule cas_loop.raw_induct[where P = Q, OF _ run])
    fix f nd' env' spur' n seen and p :: "('a, 'b) Promise" and st y
    assume IH: "\<And>nd' env' spur' n seen p st y. f nd' env' spur' n seen p st = Some y \<Longrightarrow>
                  Q nd' env' spur' n seen p st y"
      and eq: "(if st = DETACHED then
        Some (Inr \<lparr>returned = False, observed = st, observations = seen @ [st],
                   cas_attempts = n, cas_writes = [], resumed = [], after = p\<rparr>)
      else if \<not> DCHECK nd' (st \<noteq> HAS_RESULT) then Some (Inl DCHECK_failed)
      else
        let q = interfere (env' n) p;
            r = compare_exchange_weak (spur' n) (state_m q) st HAS_RESULT
        in if fst r then
             Some (Inr \<lparr>returned = True, observed = snd (snd r), observations = seen @ [st],
                        cas_attempts = Suc n, cas_writes = [(state_m q, fst (snd r))],
                        resumed = [], after = q\<lparr>state_m := fst (snd r)\<rparr>\<rparr>)
           else f nd' env' spur' (Suc n) (seen @ [st]) (q\<lparr>state_m := fst (snd r)\<rparr>) (snd (snd r))) = Some y"
    show "Q nd' env' spur' n seen p st y"
      unfolding Q_def
    proof (intro impI, elim conjE)
      assume same: "nd' = nd" "env' = env" "spur' = spur"
      note eq' = eq[unfolded same]
      consider (a) "st = DETACHED" | (b) "st \<noteq> DETACHED" "\<not> nd" "st = HAS_RESULT"
        | (c) "st \<noteq> DETACHED" "nd \<or> st \<noteq> HAS_RESULT" "fst (env n (state_m p, awaiter_m p)) = st" "\<not> spur n"
        | (d) "st \<noteq> DETACHED" "nd \<or> st \<noteq> HAS_RESULT" "fst (env n (state_m p, awaiter_m p)) \<noteq> st \<or> spur n"
        by blast
      then show "P n seen p st y"
      proof cases
        case a
        from eq' have "y = Inr \<lparr>returned = False, observed = DETACHED, observations = seen @ [DETACHED],
                cas_attempts = n, cas_writes = [], resumed = [], after = p\<rparr>"
          unfolding a by simp
        then show ?thesis unfolding a using detached[of n seen p] by simp
      next
        case b
        from eq' have "y = Inl DCHECK_failed"
          unfolding b(3) using b(2) by (simp add: DCHECK_def)
        then show ?thesis unfolding b(3) using dcheck[OF b(2), of n seen p] by simp
      next
        case c
        have qs: "state_m (interfere (env n) p) = st"
          using c(3) by (simp add: state_m_interfere)
        have cas: "compare_exchange_weak (spur n) st st HAS_RESULT = (True, HAS_RESULT, st)"
          using c(4) by (simp add: compare_exchange_weak_def)
        have chk: "DCHECK nd (st \<noteq> HAS_RESULT)" using c(2) by (simp add: DCHECK_def)
        from eq' have "y = Inr \<lparr>returned = True, observed = st, observations = seen @ [st],
                cas_attempts = Suc n, cas_writes = [(st, HAS_RESULT)], resumed = [],
                after = (interfere (env n) p)\<lparr>state_m := HAS_RESULT\<rparr>\<rparr>"
          using c(1) by (simp add: Let_def qs cas chk)
        then show ?thesis using success[OF c] by simp
      next
        case d
        define q where "q = interfere (env n) p"
        have qs: "state_m q \<noteq> st \<or> spur n"
          using d(3) by (simp add: q_def state_m_interfere)
        have cas: "compare_exchange_weak (spur n) (state_m q) st HAS_RESULT = (False, state_m q, state_m q)"
          using qs by (auto simp add: compare_exchange_weak_def)
        have chk: "DCHECK nd (st \<noteq> HAS_RESULT)" using d(2) by (simp add: DCHECK_def)
        from eq' have "(let r = compare_exchange_weak (spur n) (state_m q) st HAS_RESULT
              in if fst r then
                   Some (Inr \<lparr>returned = True, observed = snd (snd r), observations = seen @ [st],
                              cas_attempts = Suc n, cas_writes = [(state_m q, fst (snd r))],
                              resumed = [], after = q\<lparr>state_m := fst (snd r)\<rparr>\<rparr>)
                 else f nd env spur (Suc n) (seen @ [st]) (q\<lparr>state_m := fst (snd r)\<rparr>) (snd (snd r))) = Some y"
          using d(1) chk unfolding q_def Let_def by simp
        then have "f nd env spur (Suc n) (seen @ [st]) q (state_m q) = Some y"
          unfolding cas Let_def by simp
        from IH[OF this] have "P (Suc n) (seen @ [st]) (interfere (env n) p) (state_m (interfere (env n) p)) y"
          by (simp add: Q_def q_def)
        from retry[OF d this] show ?thesis .
      qed
    qed
  qed
  then show ?thesis by (simp add: Q_def)
qed

section \<open>What a returning run of the final suspend point leaves\<close>

lemma cas_loop_exit:
  assumes "cas_loop nd env spur n seen p st = Some (Inr r)"
  shows "resumed r = [] \<and> result_m (after r) = result_m p \<and> executor_m (after r) = executor_m p \<and>
           result_writes (after r) = result_writes p \<and>
           (returned r \<longleftrightarrow> observed r \<noteq> DETACHED) \<and>
           (\<not> returned r \<longrightarrow> cas_writes r = [] \<and> (st = state_m p \<longrightarrow> state_m (after r) = DETACHED)) \<and>
           (returned r \<longrightarrow> cas_writes r = [(observed r, HAS_RESULT)] \<and> state_m (after r) = HAS_RESULT \<and>
                (\<not> nd \<longrightarrow> observed r \<noteq> HAS_RESULT)) \<and>
           n \<le> cas_attempts r \<and> last (observations r) = observed r \<and> observations r \<noteq> []"
proof -
  have "\<forall>r. y = Inr r \<longrightarrow> resumed r = [] \<and> result_m (after r) = result_m p \<and> executor_m (after r) = executor_m p \<and>
           result_writes (after r) = result_writes p \<and>
           (returned r \<longleftrightarrow> observed r \<noteq> DETACHED) \<and>
           (\<not> returned r \<longrightarrow> cas_writes r = [] \<and> (st = state_m p \<longrightarrow> state_m (after r) = DETACHED)) \<and>
           (returned r \<longrightarrow> cas_writes r = [(observed r, HAS_RESULT)] \<and> state_m (after r) = HAS_RESULT \<and>
                (\<not> nd \<longrightarrow> observed r \<noteq> HAS_RESULT)) \<and>
           n \<le> cas_attempts r \<and> last (observations r) = observed r \<and> observations r \<noteq> []"
    if "cas_loop nd env spur n seen p st = Some y" for y
    using that
  proof (induct rule: cas_loop_cases)
    case (detached n seen p)
    show ?case by simp
  next
    case (dcheck n seen p)
    show ?case by simp
  next
    case (success n seen p st)
    then show ?case by (auto simp add: interfere_def)
  next
    case (retry n seen p st y)
    then show ?case by (auto simp add: interfere_def)
  qed
  from this[OF assms] show ?thesis by simp
qed

lemma await_suspend_Inr:
  assumes "await_suspend nd env spur p = Some (Inr r)"
  obtains l where "cas_loop nd env spur 0 [] p (state_m p) = Some (Inr l)"
    and "r = (if returned l \<and> observed l = HAS_AWAITER then l\<lparr>resumed := [awaiter_m (after l)]\<rparr> else l)"
  using assms
  by (auto simp add: await_suspend_def Let_def split: option.splits sum.splits if_splits)

lemma await_suspend_exit:
  assumes "await_suspend nd env spur p = Some (Inr r)"
  shows "resumed r = (if observed r = HAS_AWAITER then [awaiter_m (after r)] else [])"
    and "result_m (after r) = result_m p" and "executor_m (after r) = executor_m p"
    and "result_writes (after r) = result_writes p"
    and "returned r \<longleftrightarrow> observed r \<noteq> DETACHED"
    and "\<not> returned r \<Longrightarrow> cas_writes r = [] \<and> state_m (after r) = DETACHED"
    and "returned r \<Longrightarrow> cas_writes r = [(observed r, HAS_RESULT)] \<and> state_m (after r) = HAS_RESULT \<and>
                (\<not> nd \<longrightarrow> observed r \<noteq> HAS_RESULT)"
    and "last (observations r) = observed r" and "observations r \<noteq> []"
proof -
  from assms obtain l where l: "cas_loop nd env spur 0 [] p (state_m p) = Some (Inr l)"
    and r: "r = (if returned l \<and> observed l = HAS_AWAITER then l\<lparr>resumed := [awaiter_m (after l)]\<rparr> else l)"
    by (rule await_suspend_Inr)
  note e = cas_loop_exit[OF l]
  show "resumed r = (if observed r = HAS_AWAITER then [awaiter_m (after r)] else [])"
    using e r by auto
  show "result_m (after r) = result_m p" using e r by auto
  show "executor_m (after r) = executor_m p" using e r by auto
  show "result_writes (after r) = result_writes p" using e r by auto
  show "returned r \<longleftrightarrow> observed r \<noteq> DETACHED" using e r by auto
  show "cas_writes r = [] \<and> state_m (after r) = DETACHED" if "\<not> returned r" using e r that by auto
  show "cas_writes r = [(observed r, HAS_RESULT)] \<and> state_m (after r) = HAS_RESULT \<and>
                (\<not> nd \<longrightarrow> observed r \<noteq> HAS_RESULT)" if "returned r" using e r that by auto
  show "last (observations r) = observed r" using e r by auto
  show "observations r \<noteq> []" using e r by auto
qed

text \<open>
  A returning run in terms of the promise it started on: the memory its last atomic
  operation found is the starting promise with the interferences so far applied.
\<close>

lemma cas_loop_memory:
  assumes "cas_loop nd env spur n seen q st = Some y"
  shows "q = disturbed env p n \<and> st = state_m q \<longrightarrow>
         (\<forall>r. y = Inr r \<longrightarrow>
            (returned r \<longrightarrow> 0 < cas_attempts r \<and> \<not> spur (cas_attempts r - 1) \<and>
               observed r = state_m (disturbed env p (cas_attempts r)) \<and>
               after r = (disturbed env p (cas_attempts r))\<lparr>state_m := HAS_RESULT\<rparr>) \<and>
            (\<not> returned r \<longrightarrow> state_m (disturbed env p (cas_attempts r)) = DETACHED \<and>
               after r = disturbed env p (cas_attempts r)))"
  using assms
proof (induct rule: cas_loop_cases)
  case (detached n seen q)
  show ?case by auto
next
  case (dcheck n seen q)
  show ?case by simp
next
  case (success n seen q st)
  then show ?case by (auto simp add: state_m_interfere)
next
  case (retry n seen q st y)
  then show ?case by auto
qed

lemma await_suspend_memory:
  assumes "await_suspend nd env spur p = Some (Inr r)"
  shows "returned r \<Longrightarrow> 0 < cas_attempts r \<and> \<not> spur (cas_attempts r - 1) \<and>
               observed r = state_m (disturbed env p (cas_attempts r)) \<and>
               after r = (disturbed env p (cas_attempts r))\<lparr>state_m := HAS_RESULT\<rparr>"
    and "\<not> returned r \<Longrightarrow> state_m (disturbed env p (cas_attempts r)) = DETACHED \<and>
               after r = disturbed env p (cas_attempts r)"
proof -
  from assms obtain l where l: "cas_loop nd env spur 0 [] p (state_m p) = Some (Inr l)"
    and r: "r = (if returned l \<and> observed l = HAS_AWAITER then l\<lparr>resumed := [awaiter_m (after l)]\<rparr> else l)"
    by (rule await_suspend_Inr)
  from cas_loop_memory[OF l, of p]
  have m: "(returned l \<longrightarrow> 0 < cas_attempts l \<and> \<not> spur (cas_attempts l - 1) \<and>
               observed l = state_m (disturbed env p (cas_attempts l)) \<and>
               after l = (disturbed env p (cas_attempts l))\<lparr>state_m := HAS_RESULT\<rparr>) \<and>
            (\<not> returned l \<longrightarrow> state_m (disturbed env p (cas_attempts l)) = DETACHED \<and>
               after l = disturbed env p (cas_attempts l))"
    by simp
  show "0 < cas_attempts r \<and> \<not> spur (cas_attempts r - 1) \<and>
               observed r = state_m (disturbed env p (cas_attempts r)) \<and>
               after r = (disturbed env p (cas_attempts r))\<lparr>state_m := HAS_RESULT\<rparr>" if "returned r"
    using m r that by (auto split: if_splits)
  show "state_m (disturbed env p (cas_attempts r)) = DETACHED \<and>
               after r = disturbed env p (cas_attempts r)" if "\<not> returned r"
    using m r that by (auto split: if_splits)
qed

lemma cas_loop_history:
  assumes "cas_loop nd env spur n seen q st = Some y"
  shows "q = disturbed env p n \<and> st = state_m q \<and>
         (\<forall>i<n. state_m (disturbed env p i) \<noteq> DETACHED \<and>
                 (spur i \<or> state_m (disturbed env p (Suc i)) \<noteq> state_m (disturbed env p i))) \<longrightarrow>
         (\<forall>r. y = Inr r \<longrightarrow>
            (\<forall>i < cas_attempts r - (if returned r then 1 else 0).
                 state_m (disturbed env p i) \<noteq> DETACHED \<and>
                 (spur i \<or> state_m (disturbed env p (Suc i)) \<noteq> state_m (disturbed env p i))) \<and>
            (returned r \<longrightarrow>
               state_m (disturbed env p (cas_attempts r)) = state_m (disturbed env p (cas_attempts r - 1)) \<and>
               state_m (disturbed env p (cas_attempts r - 1)) \<noteq> DETACHED))"
  using assms
proof (induct rule: cas_loop_cases)
  case (detached n seen q)
  show ?case by auto
next
  case (dcheck n seen q)
  show ?case by simp
next
  case (success n seen q st)
  then show ?case by (auto simp add: state_m_interfere)
next
  case (retry n seen q st y)
  show ?case
  proof (intro impI, elim conjE)
    assume q: "q = disturbed env p n" and st: "st = state_m q"
      and h: "\<forall>i<n. state_m (disturbed env p i) \<noteq> DETACHED \<and>
                 (spur i \<or> state_m (disturbed env p (Suc i)) \<noteq> state_m (disturbed env p i))"
    from retry(1,3) q st
    have now: "state_m (disturbed env p n) \<noteq> DETACHED \<and>
                 (spur n \<or> state_m (disturbed env p (Suc n)) \<noteq> state_m (disturbed env p n))"
      by (auto simp add: state_m_interfere)
    with h have "\<forall>i<Suc n. state_m (disturbed env p i) \<noteq> DETACHED \<and>
                 (spur i \<or> state_m (disturbed env p (Suc i)) \<noteq> state_m (disturbed env p i))"
      by (simp add: less_Suc_eq)
    with retry(4) q show "\<forall>r. y = Inr r \<longrightarrow>
            (\<forall>i < cas_attempts r - (if returned r then 1 else 0).
                 state_m (disturbed env p i) \<noteq> DETACHED \<and>
                 (spur i \<or> state_m (disturbed env p (Suc i)) \<noteq> state_m (disturbed env p i))) \<and>
            (returned r \<longrightarrow>
               state_m (disturbed env p (cas_attempts r)) = state_m (disturbed env p (cas_attempts r - 1)) \<and>
               state_m (disturbed env p (cas_attempts r - 1)) \<noteq> DETACHED)"
      by simp
  qed
qed

lemma await_suspend_history:
  assumes "await_suspend nd env spur p = Some (Inr r)"
  shows "(\<forall>i < cas_attempts r - (if returned r then 1 else 0).
                 state_m (disturbed env p i) \<noteq> DETACHED \<and>
                 (spur i \<or> state_m (disturbed env p (Suc i)) \<noteq> state_m (disturbed env p i))) \<and>
         (returned r \<longrightarrow>
               state_m (disturbed env p (cas_attempts r)) = state_m (disturbed env p (cas_attempts r - 1)) \<and>
               state_m (disturbed env p (cas_attempts r - 1)) \<noteq> DETACHED)"
proof -
  from assms obtain l where l: "cas_loop nd env spur 0 [] p (state_m p) = Some (Inr l)"
    and r: "r = (if returned l \<and> observed l = HAS_AWAITER then l\<lparr>resumed := [awaiter_m (after l)]\<rparr> else l)"
    by (rule await_suspend_Inr)
  from cas_loop_history[OF l, of p]
  have "(\<forall>i < cas_attempts l - (if returned l then 1 else 0).
                 state_m (disturbed env p i) \<noteq> DETACHED \<and>
                 (spur i \<or> state_m (disturbed env p (Suc i)) \<noteq> state_m (disturbed env p i))) \<and>
         (returned l \<longrightarrow>
               state_m (disturbed env p (cas_attempts l)) = state_m (disturbed env p (cas_attempts l - 1)) \<and>
               state_m (disturbed env p (cas_attempts l - 1)) \<noteq> DETACHED)"
    by simp
  moreover have "cas_attempts r = cas_attempts l" "returned r = returned l"
    using r by (simp_all split: if_splits)
  ultimately show ?thesis by simp
qed

lemma await_suspend_undisturbed:
  "s \<noteq> DETACHED \<Longrightarrow> nd \<or> s \<noteq> HAS_RESULT \<Longrightarrow>
   await_suspend nd no_interference never_spurious (p\<lparr>state_m := s\<rparr>) =
     Some (Inr \<lparr>returned = True, observed = s, observations = [s], cas_attempts = 1,
                cas_writes = [(s, HAS_RESULT)],
                resumed = (if s = HAS_AWAITER then [awaiter_m p] else []),
                after = p\<lparr>state_m := HAS_RESULT\<rparr>\<rparr>)"
  by (simp add: await_suspend_def cas_loop_success no_interference_def never_spurious_def interfere_def)

lemma await_suspend_detached:
  "state_m p = DETACHED \<Longrightarrow>
   await_suspend nd env spur p =
     Some (Inr \<lparr>returned = False, observed = DETACHED, observations = [DETACHED],
                cas_attempts = 0, cas_writes = [], resumed = [], after = p\<rparr>)"
  by (simp add: await_suspend_def cas_loop_detached)

lemma final_suspend_point_Inr:
  assumes "final_suspend_point nd gap env spur p = Some (Inr f)"
  obtains (ready) "await_ready p" "f = \<lparr>fate = Runs_to_end, woken = [], frame = p\<rparr>"
  | (suspend) r where "\<not> await_ready p" "await_suspend nd env spur (interfere gap p) = Some (Inr r)"
      "f = \<lparr>fate = (if returned r then Stays_suspended else Runs_to_end), woken = resumed r, frame = after r\<rparr>"
  using assms
  by (auto simp add: final_suspend_point_def split: if_splits option.splits sum.splits)

lemma final_suspend_point_result:
  assumes "final_suspend_point nd gap env spur p = Some (Inr f)"
  shows "result_m (frame f) = result_m p \<and> result_writes (frame f) = result_writes p \<and>
         executor_m (frame f) = executor_m p"
  using assms
proof (cases rule: final_suspend_point_Inr)
  case ready
  then show ?thesis by simp
next
  case (suspend r)
  from await_suspend_exit(2,3,4)[OF suspend(2)] suspend(3) show ?thesis
    by (simp add: interfere_def)
qed

section \<open>The result cell does not steer the loop\<close>

lemma interfere_result_m: "interfere f (p\<lparr>result_m := c\<rparr>) = (interfere f p)\<lparr>result_m := c\<rparr>"
  by (simp add: interfere_def)

lemma cas_loop_carries_result:
  assumes "cas_loop nd env spur n seen p st = Some y"
  shows "cas_loop nd env spur n seen (p\<lparr>result_m := c\<rparr>) st = Some (carry c y)"
  using assms
proof (induct rule: cas_loop_cases)
  case (detached n seen p)
  show ?case by (simp add: cas_loop_detached carry_def)
next
  case (dcheck n seen p)
  then show ?case by (simp add: cas_loop_dcheck carry_def)
next
  case (success n seen p st)
  then show ?case by (simp add: cas_loop_success carry_def interfere_result_m)
next
  case (retry n seen p st y)
  have "cas_loop nd env spur n seen (p\<lparr>result_m := c\<rparr>) st =
        cas_loop nd env spur (Suc n) (seen @ [st]) ((interfere (env n) p)\<lparr>result_m := c\<rparr>)
          (state_m (interfere (env n) p))"
    using retry(1,2,3) by (subst cas_loop_retry) (simp_all add: interfere_result_m)
  with retry(4) show ?case by simp
qed

lemma cas_loop_result_independent:
  "cas_loop nd env spur n seen (p\<lparr>result_m := c\<rparr>) st =
     map_option (carry c) (cas_loop nd env spur n seen p st)"
proof (cases "cas_loop nd env spur n seen p st")
  case (Some y)
  then show ?thesis by (simp add: cas_loop_carries_result)
next
  case None
  have "cas_loop nd env spur n seen (p\<lparr>result_m := c\<rparr>) st = None"
  proof (rule ccontr)
    assume "cas_loop nd env spur n seen (p\<lparr>result_m := c\<rparr>) st \<noteq> None"
    then obtain y where "cas_loop nd env spur n seen (p\<lparr>result_m := c\<rparr>) st = Some y" by blast
    from cas_loop_carries_result[OF this, of "result_m p"] None show False by simp
  qed
  with None show ?thesis by simp
qed

lemma await_suspend_result_independent:
  "await_suspend nd env spur (p\<lparr>result_m := c\<rparr>) = map_option (carry c) (await_suspend nd env spur p)"
  by (cases "cas_loop nd env spur 0 [] p (state_m p)")
     (auto simp add: await_suspend_def cas_loop_result_independent carry_def split: sum.splits)

section \<open>The environment\<close>

lemma quiet_id: "quiet id"
  by (simp add: quiet_def)

lemma I1_external_id: "I1_external id"
  by (simp add: I1_external_def)

lemma I1_external_markDetached: "I1_external markDetached"
  by (simp add: I1_external_def markDetached_def)

lemma I1_external_registerAwaiter: "I1_external (registerAwaiter h)"
  by (simp add: I1_external_def registerAwaiter_def)

lemma single_external_actor_none: "single_external_actor no_interference"
  by (simp add: single_external_actor_def no_interference_def quiet_id I1_external_id)

lemma single_external_actor_once: "I1_external f \<Longrightarrow> single_external_actor (once k f)"
  unfolding single_external_actor_def
  by (rule exI[of _ k]) (simp add: once_def quiet_id I1_external_id)

lemma finite_spurious_first: "finite {n. spurious_first k n}"
  by (simp add: spurious_first_def)

lemma card_spurious_first: "card {n. spurious_first k n} = k"
  by (simp add: spurious_first_def)

section \<open>Runs that spin and runs that end\<close>

lemma cas_loop_returns_not_spinning:
  assumes "cas_loop nd no_interference always_spurious n seen p st = Some y"
  shows "\<not> (st = EMPTY \<and> state_m p = EMPTY)"
  using assms
proof (induct rule: cas_loop_cases)
  case (detached n seen p)
  show ?case by simp
next
  case (dcheck n seen p)
  show ?case by simp
next
  case (success n seen p st)
  then show ?case by (simp add: always_spurious_def)
next
  case (retry n seen p st y)
  then show ?case by (simp add: no_interference_def state_m_interfere)
qed

lemma cas_loop_spins:
  "state_m p = EMPTY \<Longrightarrow> cas_loop nd no_interference always_spurious n seen p EMPTY = None"
  using cas_loop_returns_not_spinning[of nd n seen p EMPTY] by (cases "cas_loop nd no_interference always_spurious n seen p EMPTY") auto

lemma cas_loop_terminates:
  assumes fin: "finite {i. n \<le> i \<and> (spur i \<or> \<not> quiet (env i))}"
    and inv: "st = state_m p"
  shows "\<exists>y. cas_loop nd env spur n seen p st = Some y \<and>
           (\<forall>r. y = Inr r \<longrightarrow> cas_attempts r \<le> n + card {i. n \<le> i \<and> (spur i \<or> \<not> quiet (env i))} + 1)"
  using fin inv
proof (induct "card {i. n \<le> i \<and> (spur i \<or> \<not> quiet (env i))}" arbitrary: n seen p st rule: less_induct)
  case less
  let ?B = "\<lambda>n. {i. n \<le> i \<and> (spur i \<or> \<not> quiet (env i))}"
  consider (a) "st = DETACHED" | (b) "st \<noteq> DETACHED" "\<not> nd" "st = HAS_RESULT"
    | (c) "st \<noteq> DETACHED" "nd \<or> st \<noteq> HAS_RESULT" "fst (env n (state_m p, awaiter_m p)) = st" "\<not> spur n"
    | (d) "st \<noteq> DETACHED" "nd \<or> st \<noteq> HAS_RESULT" "fst (env n (state_m p, awaiter_m p)) \<noteq> st \<or> spur n"
    by blast
  then show ?case
  proof cases
    case a
    then show ?thesis by (simp add: cas_loop_detached)
  next
    case b
    then show ?thesis by (simp add: cas_loop_dcheck)
  next
    case c
    then show ?thesis by (simp add: cas_loop_success)
  next
    case d
    from d(3) less.prems(2) have bad: "spur n \<or> \<not> quiet (env n)"
      by (auto simp add: quiet_def)
    then have mem: "n \<in> ?B n" by simp
    have split: "?B n = insert n (?B (Suc n))"
      using bad by (auto simp add: Suc_le_eq le_less)
    have finS: "finite (?B (Suc n))"
      using less.prems(1) by (rule rev_finite_subset) auto
    have cardS: "card (?B n) = Suc (card (?B (Suc n)))"
      using finS by (subst split) simp
    then have lt: "card (?B (Suc n)) < card (?B n)" by simp
    from less.hyps[OF lt finS refl, of "seen @ [st]" "interfere (env n) p"]
    obtain y where y: "cas_loop nd env spur (Suc n) (seen @ [st]) (interfere (env n) p)
                         (state_m (interfere (env n) p)) = Some y"
      and bound: "\<forall>r. y = Inr r \<longrightarrow> cas_attempts r \<le> Suc n + card (?B (Suc n)) + 1"
      by blast
    from y have "cas_loop nd env spur n seen p st = Some y"
      using d by (simp add: cas_loop_retry)
    with bound cardS show ?thesis by simp
  qed
qed

lemma cas_loop_never_sees_result:
  assumes "cas_loop nd env spur n seen p st = Some y"
    and "\<forall>n. I1_external (env n)"
  shows "st = state_m p \<and> st \<noteq> HAS_RESULT \<and> HAS_RESULT \<notin> set seen \<longrightarrow>
         y \<noteq> Inl DCHECK_failed \<and> (\<forall>r. y = Inr r \<longrightarrow> HAS_RESULT \<notin> set (observations r))"
  using assms(1)
proof (induct rule: cas_loop_cases)
  case (detached n seen p)
  show ?case by simp
next
  case (dcheck n seen p)
  show ?case by simp
next
  case (success n seen p st)
  then show ?case by auto
next
  case (retry n seen p st y)
  from assms(2) have "I1_external (env n)" by simp
  then have "fst (env n (state_m p, awaiter_m p)) = state_m p \<or>
             (state_m p = EMPTY \<and> (fst (env n (state_m p, awaiter_m p)) = DETACHED \<or>
                                    fst (env n (state_m p, awaiter_m p)) = HAS_AWAITER))"
    unfolding I1_external_def by blast
  with retry(4) show ?case by (auto simp add: state_m_interfere)
qed

lemma second_finalization_trips_assertion:
  "state_m p = HAS_RESULT \<Longrightarrow> await_suspend False env spur p = Some (Inl DCHECK_failed)"
  by (simp add: await_suspend_def cas_loop_dcheck)

section \<open>Single resumption\<close>

text \<open>
  C1. On a promise that is DETACHED \<^verbatim>\<open>FinalSuspender::await_suspend\<close> returns false and
  resumes nothing; undisturbed on a promise that is HAS_AWAITER it resumes the \<^verbatim>\<open>awaiter_\<close>
  stored in that promise, once; undisturbed on a promise that is EMPTY it resumes nothing.
  In every run that returns, whatever the other threads did to \<^verbatim>\<open>state_\<close> and \<^verbatim>\<open>awaiter_\<close>
  in between and however often the weak compare-exchange failed, in either build mode:
  the state observed is the \<^verbatim>\<open>state_\<close> that the last atomic operation found in the promise
  as the other threads had made it; if the successful compare-exchange replaced
  HAS_AWAITER, the \<^verbatim>\<open>awaiter_\<close> stored in that promise is resumed exactly once; if it
  replaced EMPTY, or the loop left on DETACHED, nothing is resumed. No run resumes twice.
  The operation that ends the run is the first one that can: every exchange before it
  failed, spuriously or because \<^verbatim>\<open>state_\<close> had changed, on a promise not DETACHED.
\<close>

theorem finalize_resumes_awaiter_once:
  "await_suspend nd env spur (p\<lparr>state_m := DETACHED\<rparr>) =
     Some (Inr \<lparr>returned = False, observed = DETACHED, observations = [DETACHED],
                cas_attempts = 0, cas_writes = [], resumed = [],
                after = p\<lparr>state_m := DETACHED\<rparr>\<rparr>) \<and>
   await_suspend nd no_interference never_spurious (p\<lparr>state_m := HAS_AWAITER\<rparr>) =
     Some (Inr \<lparr>returned = True, observed = HAS_AWAITER, observations = [HAS_AWAITER],
                cas_attempts = 1, cas_writes = [(HAS_AWAITER, HAS_RESULT)],
                resumed = [awaiter_m p], after = p\<lparr>state_m := HAS_RESULT\<rparr>\<rparr>) \<and>
   await_suspend nd no_interference never_spurious (p\<lparr>state_m := EMPTY\<rparr>) =
     Some (Inr \<lparr>returned = True, observed = EMPTY, observations = [EMPTY],
                cas_attempts = 1, cas_writes = [(EMPTY, HAS_RESULT)],
                resumed = [], after = p\<lparr>state_m := HAS_RESULT\<rparr>\<rparr>) \<and>
   (await_suspend nd env spur p = Some (Inr r) \<longrightarrow>
      (returned r \<longrightarrow>
         0 < cas_attempts r \<and> \<not> spur (cas_attempts r - 1) \<and>
         observed r = state_m (disturbed env p (cas_attempts r)) \<and>
         after r = (disturbed env p (cas_attempts r))\<lparr>state_m := HAS_RESULT\<rparr> \<and>
         resumed r = (if state_m (disturbed env p (cas_attempts r)) = HAS_AWAITER
                      then [awaiter_m (disturbed env p (cas_attempts r))] else [])) \<and>
      (\<not> returned r \<longrightarrow>
         state_m (disturbed env p (cas_attempts r)) = DETACHED \<and>
         after r = disturbed env p (cas_attempts r) \<and> resumed r = []) \<and>
      resumed r = (if observed r = HAS_AWAITER then [awaiter_m (after r)] else []) \<and>
      (observed r = HAS_AWAITER \<longrightarrow> returned r \<and> cas_writes r = [(HAS_AWAITER, HAS_RESULT)]) \<and>
      (observed r = EMPTY \<longrightarrow> resumed r = []) \<and>
      (observed r = DETACHED \<longrightarrow> resumed r = [] \<and> \<not> returned r) \<and>
      (\<forall>i < cas_attempts r - (if returned r then 1 else 0).
         state_m (disturbed env p i) \<noteq> DETACHED \<and>
         (spur i \<or> state_m (disturbed env p (Suc i)) \<noteq> state_m (disturbed env p i))) \<and>
      (returned r \<longrightarrow>
         state_m (disturbed env p (cas_attempts r)) = state_m (disturbed env p (cas_attempts r - 1)) \<and>
         state_m (disturbed env p (cas_attempts r - 1)) \<noteq> DETACHED) \<and>
      length (resumed r) \<le> 1)"
proof -
  have d: "await_suspend nd env spur (p\<lparr>state_m := DETACHED\<rparr>) =
     Some (Inr \<lparr>returned = False, observed = DETACHED, observations = [DETACHED],
                cas_attempts = 0, cas_writes = [], resumed = [],
                after = p\<lparr>state_m := DETACHED\<rparr>\<rparr>)"
    by (simp add: await_suspend_detached)
  have a: "await_suspend nd no_interference never_spurious (p\<lparr>state_m := HAS_AWAITER\<rparr>) =
     Some (Inr \<lparr>returned = True, observed = HAS_AWAITER, observations = [HAS_AWAITER],
                cas_attempts = 1, cas_writes = [(HAS_AWAITER, HAS_RESULT)],
                resumed = [awaiter_m p], after = p\<lparr>state_m := HAS_RESULT\<rparr>\<rparr>)"
    by (simp add: await_suspend_undisturbed)
  have e: "await_suspend nd no_interference never_spurious (p\<lparr>state_m := EMPTY\<rparr>) =
     Some (Inr \<lparr>returned = True, observed = EMPTY, observations = [EMPTY],
                cas_attempts = 1, cas_writes = [(EMPTY, HAS_RESULT)],
                resumed = [], after = p\<lparr>state_m := HAS_RESULT\<rparr>\<rparr>)"
    by (simp add: await_suspend_undisturbed)
  have g: "(returned r \<longrightarrow>
         0 < cas_attempts r \<and> \<not> spur (cas_attempts r - 1) \<and>
         observed r = state_m (disturbed env p (cas_attempts r)) \<and>
         after r = (disturbed env p (cas_attempts r))\<lparr>state_m := HAS_RESULT\<rparr> \<and>
         resumed r = (if state_m (disturbed env p (cas_attempts r)) = HAS_AWAITER
                      then [awaiter_m (disturbed env p (cas_attempts r))] else [])) \<and>
      (\<not> returned r \<longrightarrow>
         state_m (disturbed env p (cas_attempts r)) = DETACHED \<and>
         after r = disturbed env p (cas_attempts r) \<and> resumed r = []) \<and>
      resumed r = (if observed r = HAS_AWAITER then [awaiter_m (after r)] else []) \<and>
      (observed r = HAS_AWAITER \<longrightarrow> returned r \<and> cas_writes r = [(HAS_AWAITER, HAS_RESULT)]) \<and>
      (observed r = EMPTY \<longrightarrow> resumed r = []) \<and>
      (observed r = DETACHED \<longrightarrow> resumed r = [] \<and> \<not> returned r) \<and>
      (\<forall>i < cas_attempts r - (if returned r then 1 else 0).
         state_m (disturbed env p i) \<noteq> DETACHED \<and>
         (spur i \<or> state_m (disturbed env p (Suc i)) \<noteq> state_m (disturbed env p i))) \<and>
      (returned r \<longrightarrow>
         state_m (disturbed env p (cas_attempts r)) = state_m (disturbed env p (cas_attempts r - 1)) \<and>
         state_m (disturbed env p (cas_attempts r - 1)) \<noteq> DETACHED) \<and>
      length (resumed r) \<le> 1"
    if run: "await_suspend nd env spur p = Some (Inr r)"
  proof (cases "returned r")
    case True
    from await_suspend_memory(1)[OF run True] await_suspend_exit(1,5,7)[OF run] True
    have "(returned r \<longrightarrow>
         0 < cas_attempts r \<and> \<not> spur (cas_attempts r - 1) \<and>
         observed r = state_m (disturbed env p (cas_attempts r)) \<and>
         after r = (disturbed env p (cas_attempts r))\<lparr>state_m := HAS_RESULT\<rparr> \<and>
         resumed r = (if state_m (disturbed env p (cas_attempts r)) = HAS_AWAITER
                      then [awaiter_m (disturbed env p (cas_attempts r))] else [])) \<and>
      (\<not> returned r \<longrightarrow>
         state_m (disturbed env p (cas_attempts r)) = DETACHED \<and>
         after r = disturbed env p (cas_attempts r) \<and> resumed r = []) \<and>
      resumed r = (if observed r = HAS_AWAITER then [awaiter_m (after r)] else []) \<and>
      (observed r = HAS_AWAITER \<longrightarrow> returned r \<and> cas_writes r = [(HAS_AWAITER, HAS_RESULT)]) \<and>
      (observed r = EMPTY \<longrightarrow> resumed r = []) \<and>
      (observed r = DETACHED \<longrightarrow> resumed r = [] \<and> \<not> returned r) \<and>
      length (resumed r) \<le> 1"
      by auto
    with await_suspend_history[OF run] show ?thesis by blast
  next
    case False
    from await_suspend_memory(2)[OF run False] await_suspend_exit(1,5,6)[OF run] False
    have "(returned r \<longrightarrow>
         0 < cas_attempts r \<and> \<not> spur (cas_attempts r - 1) \<and>
         observed r = state_m (disturbed env p (cas_attempts r)) \<and>
         after r = (disturbed env p (cas_attempts r))\<lparr>state_m := HAS_RESULT\<rparr> \<and>
         resumed r = (if state_m (disturbed env p (cas_attempts r)) = HAS_AWAITER
                      then [awaiter_m (disturbed env p (cas_attempts r))] else [])) \<and>
      (\<not> returned r \<longrightarrow>
         state_m (disturbed env p (cas_attempts r)) = DETACHED \<and>
         after r = disturbed env p (cas_attempts r) \<and> resumed r = []) \<and>
      resumed r = (if observed r = HAS_AWAITER then [awaiter_m (after r)] else []) \<and>
      (observed r = HAS_AWAITER \<longrightarrow> returned r \<and> cas_writes r = [(HAS_AWAITER, HAS_RESULT)]) \<and>
      (observed r = EMPTY \<longrightarrow> resumed r = []) \<and>
      (observed r = DETACHED \<longrightarrow> resumed r = [] \<and> \<not> returned r) \<and>
      length (resumed r) \<le> 1"
      by auto
    with await_suspend_history[OF run] show ?thesis by blast
  qed
  from d a e g show ?thesis by blast
qed

text \<open>
  The race in which the awaiter registers handle 7 between the finalizer's load and its
  first compare-exchange, on a fresh promise whose \<^verbatim>\<open>awaiter_\<close> was null: the exchange fails
  once, the retry replaces HAS_AWAITER, and the handle then stored, 7, is resumed once.
\<close>

theorem finalize_resumes_awaiter_once_witness:
  "(let p0 = Promise_ctor (Nothing :: (nat, nat) Try);
        env = once 0 (registerAwaiter 7);
        R = \<lparr>returned = True, observed = HAS_AWAITER, observations = [EMPTY, HAS_AWAITER],
             cas_attempts = 2, cas_writes = [(HAS_AWAITER, HAS_RESULT)], resumed = [7],
             after = \<lparr>result_m = Nothing, state_m = HAS_RESULT, awaiter_m = 7, executor_m = 0,
                      result_writes = 0\<rparr>\<rparr>
    in await_suspend False env never_spurious p0 = Some (Inr R) \<and> returned R \<and>
       state_m (disturbed env p0 (cas_attempts R)) = HAS_AWAITER \<and>
       awaiter_m (disturbed env p0 (cas_attempts R)) = 7 \<and>
       resumed R = [awaiter_m (disturbed env p0 (cas_attempts R))] \<and> length (resumed R) \<le> 1)"
proof -
  let ?p0 = "Promise_ctor (Nothing :: (nat, nat) Try)"
  let ?R = "\<lparr>returned = True, observed = HAS_AWAITER, observations = [EMPTY, HAS_AWAITER],
             cas_attempts = 2, cas_writes = [(HAS_AWAITER, HAS_RESULT)], resumed = [7],
             after = \<lparr>result_m = (Nothing :: (nat, nat) Try), state_m = HAS_RESULT, awaiter_m = 7,
                      executor_m = 0, result_writes = 0\<rparr>\<rparr>"
  have run: "await_suspend False (once 0 (registerAwaiter 7)) never_spurious ?p0 = Some (Inr ?R)"
    by (simp add: await_suspend_def Promise_ctor_def cas_loop_retry cas_loop_success once_def
        registerAwaiter_def never_spurious_def interfere_def numeral_2_eq_2)
  have mem: "disturbed (once 0 (registerAwaiter 7)) ?p0 2 =
      \<lparr>result_m = Nothing, state_m = HAS_AWAITER, awaiter_m = 7, executor_m = 0, result_writes = 0\<rparr>"
    by (simp add: numeral_2_eq_2 once_def registerAwaiter_def interfere_def Promise_ctor_def)
  from finalize_resumes_awaiter_once[where p = ?p0 and nd = False
      and env = "once 0 (registerAwaiter 7)" and spur = never_spurious and r = ?R] run mem
  show ?thesis by (simp add: Let_def)
qed

section \<open>Legal transitions\<close>



section \<open>Detached frames\<close>



section \<open>Recording the result\<close>

text \<open>
  C4. \<^verbatim>\<open>PromiseBase<T>::return_value\<close> and \<^verbatim>\<open>Promise<T>::unhandled_exception\<close> write only
  \<^verbatim>\<open>result_\<close>: every call leaves \<^verbatim>\<open>state_\<close>, \<^verbatim>\<open>awaiter_\<close> and \<^verbatim>\<open>executor_\<close> as they
  were, and \<^verbatim>\<open>result_\<close> holds the value, or the captured error, afterwards.
\<close>

theorem recording_writes_only_result:
  "state_m (return_value v p) = state_m p \<and> awaiter_m (return_value v p) = awaiter_m p \<and>
   executor_m (return_value v p) = executor_m p \<and>
   state_m (unhandled_exception e p) = state_m p \<and> awaiter_m (unhandled_exception e p) = awaiter_m p \<and>
   executor_m (unhandled_exception e p) = executor_m p \<and>
   result_m (return_value v p) = Value v \<and> result_m (unhandled_exception e p) = Exception e"
  by (simp add: return_value_def unhandled_exception_def)

section \<open>Errors and values take the same way\<close>

text \<open>
  C5. \<^verbatim>\<open>unhandled_exception\<close> stores the captured error into the \<^verbatim>\<open>result_\<close> that
  \<^verbatim>\<open>return_value\<close> uses, and the final suspend point never looks at it: for a frame that
  ended with an error and the same frame ended with a value, \<^verbatim>\<open>await_ready\<close> gives the same
  answer and \<^verbatim>\<open>await_suspend\<close> runs alike (it returns in the one case exactly when it
  returns in the other, with the same return value, observations, stores and resumptions),
  the promises left differing only in the content of \<^verbatim>\<open>result_\<close>. The same holds for any
  two contents of \<^verbatim>\<open>result_\<close>.
\<close>

theorem finalization_ignores_result:
  "result_m (return_value v p) = Value v \<and> result_m (unhandled_exception e p) = Exception e \<and>
   unhandled_exception e p = (return_value v p)\<lparr>result_m := Exception e\<rparr> \<and>
   await_ready (unhandled_exception e p) = await_ready (return_value v p) \<and>
   await_suspend nd env spur (unhandled_exception e p) =
     map_option (carry (Exception e)) (await_suspend nd env spur (return_value v p)) \<and>
   await_ready (p\<lparr>result_m := c\<rparr>) = await_ready p \<and>
   await_suspend nd env spur (p\<lparr>result_m := c\<rparr>) = map_option (carry c) (await_suspend nd env spur p)"
proof -
  have same: "unhandled_exception e p = (return_value v p)\<lparr>result_m := Exception e\<rparr>"
    by (simp add: unhandled_exception_def return_value_def)
  have "await_suspend nd env spur (unhandled_exception e p) =
     map_option (carry (Exception e)) (await_suspend nd env spur (return_value v p))"
    unfolding same by (rule await_suspend_result_independent)
  with same show ?thesis
    by (simp add: await_suspend_result_independent await_ready_def return_value_def
        unhandled_exception_def)
qed

section \<open>Await dispatch\<close>

text \<open>
  C6. For an awaited peer \<^verbatim>\<open>Future<U>\<close>, taken by reference or as an rvalue,
  \<^verbatim>\<open>await_transform\<close> compares \<^verbatim>\<open>future.promise_->executor_\<close> with the awaiting frame's
  \<^verbatim>\<open>executor_\<close>. When they are equal it creates the \<^verbatim>\<open>AwaitWrapper\<close> of the future without
  an executor (no hop); when they differ it creates it with the awaiting frame's executor,
  so that the adapter makes one hop, onto that executor.
\<close>

theorem await_transform_peer_future:
  "awaitable (await_transform_Future future p) = future \<and>
   awaitable (await_transform_Future_rvalue future p) = future \<and>
   via (await_transform_Future future p) =
     (if executor_m (promise_m future) = executor_m p then None else Some (executor_m p)) \<and>
   via (await_transform_Future_rvalue future p) =
     (if executor_m (promise_m future) = executor_m p then None else Some (executor_m p)) \<and>
   executor_hops (await_transform_Future future p) =
     (if executor_m (promise_m future) = executor_m p then [] else [executor_m p]) \<and>
   executor_hops (await_transform_Future_rvalue future p) =
     (if executor_m (promise_m future) = executor_m p then [] else [executor_m p])"
  by (simp add: await_transform_Future_def await_transform_Future_rvalue_def
      AwaitWrapper_create_def AwaitWrapper_create_via_def executor_hops_def)

text \<open>
  C7. \<^verbatim>\<open>await_transform(getCurrentExecutor)\<close> gives an \<^verbatim>\<open>AwaitableReady<Executor*>\<close>, which is
  ready at once, so awaiting it never suspends, and which yields the frame's \<^verbatim>\<open>executor_\<close>.
\<close>

theorem current_executor_is_ready:
  "AwaitableReady_await_ready (await_transform_getCurrentExecutor p) \<and>
   AwaitableReady_await_resume (await_transform_getCurrentExecutor p) = executor_m p"
  by (simp add: AwaitableReady_await_ready_def AwaitableReady_await_resume_def
      await_transform_getCurrentExecutor_def)

section \<open>Writes of the result cell\<close>

text \<open>
  C8, as the claim states it, fails for \<^verbatim>\<open>T = void\<close>: a \<^verbatim>\<open>void\<close> coroutine that returns
  goes through \<^verbatim>\<open>return_void\<close>, whose body is empty. Such a coroutine, constructed, run to
  its \<^verbatim>\<open>co_return\<close> and through its final suspend point, reaches HAS_RESULT with no
  assignment to \<^verbatim>\<open>result_\<close> made: the cell holds what the constructor left.
\<close>

theorem void_return_writes_nothing:
  "completes_void False id no_interference never_spurious (Returns ())
     (Promise_ctor (Nothing :: (unit, nat) Try)) =
   Some (Inr \<lparr>fate = Stays_suspended, woken = [],
              frame = \<lparr>result_m = Nothing, state_m = HAS_RESULT, awaiter_m = 0, executor_m = 0,
                       result_writes = 0\<rparr>\<rparr>)"
  by (simp add: completes_void_def body_completes_void_def return_void_def final_suspend_point_def
      await_ready_def await_suspend_def Promise_ctor_def cas_loop_success no_interference_def
      never_spurious_def interfere_def)

text \<open>
  C8, amended. \<^verbatim>\<open>result_\<close> is written only when the body completes, and at most once. With
  a result type other than \<^verbatim>\<open>void\<close> it is written exactly once, by \<^verbatim>\<open>return_value\<close> or by
  \<^verbatim>\<open>unhandled_exception\<close>. In a \<^verbatim>\<open>void\<close> coroutine it is written once by
  \<^verbatim>\<open>unhandled_exception\<close> when the body throws and not at all when the body returns, since
  \<^verbatim>\<open>return_void\<close> leaves \<^verbatim>\<open>result_\<close> as constructed. The final suspend point writes
  nothing to it.
\<close>

theorem result_written_by_completion_only:
  "result_writes (body_completes c p) = Suc (result_writes p) \<and>
   result_writes (body_completes_void cv q) =
     (case cv of Returns u \<Rightarrow> result_writes q | Throws e \<Rightarrow> Suc (result_writes q)) \<and>
   (completes nd gap env spur c p = Some (Inr f) \<longrightarrow>
      result_writes (frame f) = Suc (result_writes p) \<and>
      result_m (frame f) = (case c of Returns v \<Rightarrow> Value v | Throws e \<Rightarrow> Exception e)) \<and>
   (completes_void nd gap env spur cv q = Some (Inr g) \<longrightarrow>
      result_writes (frame g) =
        (case cv of Returns u \<Rightarrow> result_writes q | Throws e \<Rightarrow> Suc (result_writes q)) \<and>
      result_m (frame g) = (case cv of Returns u \<Rightarrow> result_m q | Throws e \<Rightarrow> Exception e))"
proof -
  have b: "result_writes (body_completes c p) = Suc (result_writes p) \<and>
           result_m (body_completes c p) = (case c of Returns v \<Rightarrow> Value v | Throws e \<Rightarrow> Exception e)"
    by (cases c) (simp_all add: body_completes_def return_value_def unhandled_exception_def)
  have bv: "result_writes (body_completes_void cv q) =
              (case cv of Returns u \<Rightarrow> result_writes q | Throws e \<Rightarrow> Suc (result_writes q)) \<and>
            result_m (body_completes_void cv q) =
              (case cv of Returns u \<Rightarrow> result_m q | Throws e \<Rightarrow> Exception e)"
    by (cases cv) (simp_all add: body_completes_void_def return_void_def unhandled_exception_def)
  have f: "result_writes (frame f) = Suc (result_writes p) \<and>
      result_m (frame f) = (case c of Returns v \<Rightarrow> Value v | Throws e \<Rightarrow> Exception e)"
    if "completes nd gap env spur c p = Some (Inr f)"
    using final_suspend_point_result[OF that[unfolded completes_def]] b by simp
  have g: "result_writes (frame g) =
        (case cv of Returns u \<Rightarrow> result_writes q | Throws e \<Rightarrow> Suc (result_writes q)) \<and>
      result_m (frame g) = (case cv of Returns u \<Rightarrow> result_m q | Throws e \<Rightarrow> Exception e)"
    if "completes_void nd gap env spur cv q = Some (Inr g)"
    using final_suspend_point_result[OF that[unfolded completes_void_def]] bv by simp
  from b bv f g show ?thesis by blast
qed

text \<open>A coroutine that returns 5 and a \<^verbatim>\<open>void\<close> coroutine that throws: one write each.\<close>

theorem result_written_by_completion_only_witness:
  "(let V = \<lparr>fate = Stays_suspended, woken = [],
             frame = \<lparr>result_m = Value (5 :: nat), state_m = HAS_RESULT, awaiter_m = 0, executor_m = 0,
                      result_writes = 1\<rparr>\<rparr>;
        E = \<lparr>fate = Stays_suspended, woken = [],
             frame = \<lparr>result_m = Exception (3 :: nat), state_m = HAS_RESULT, awaiter_m = 0, executor_m = 0,
                      result_writes = 1\<rparr>\<rparr>
    in completes False id no_interference never_spurious (Returns 5) (Promise_ctor (Nothing :: (nat, nat) Try))
         = Some (Inr V) \<and>
       completes_void False id no_interference never_spurious (Throws 3) (Promise_ctor Nothing) = Some (Inr E) \<and>
       result_writes (frame V) = 1 \<and> result_writes (frame E) = 1)"
proof -
  let ?V = "\<lparr>fate = Stays_suspended, woken = [],
             frame = \<lparr>result_m = (Value 5 :: (nat, nat) Try), state_m = HAS_RESULT, awaiter_m = 0,
                      executor_m = 0, result_writes = 1\<rparr>\<rparr>"
  let ?E = "\<lparr>fate = Stays_suspended, woken = [],
             frame = \<lparr>result_m = (Exception 3 :: (unit, nat) Try), state_m = HAS_RESULT, awaiter_m = 0,
                      executor_m = 0, result_writes = 1\<rparr>\<rparr>"
  have v: "completes False id no_interference never_spurious (Returns 5) (Promise_ctor Nothing) = Some (Inr ?V)"
    by (simp add: completes_def body_completes_def return_value_def final_suspend_point_def
      await_ready_def await_suspend_def Promise_ctor_def cas_loop_success no_interference_def
      never_spurious_def interfere_def)
  have e: "completes_void False id no_interference never_spurious (Throws 3) (Promise_ctor Nothing) = Some (Inr ?E)"
    by (simp add: completes_void_def body_completes_void_def unhandled_exception_def final_suspend_point_def
      await_ready_def await_suspend_def Promise_ctor_def cas_loop_success no_interference_def
      never_spurious_def interfere_def)
  from result_written_by_completion_only[of "Returns 5" "Promise_ctor Nothing" "Throws 3" "Promise_ctor Nothing"
      False id no_interference never_spurious ?V ?E] v e
  show ?thesis by (simp add: Let_def Promise_ctor_def)
qed

section \<open>Termination of the compare-exchange loop\<close>

text \<open>
  C9, as the claim states it, fails: the loop uses \<^verbatim>\<open>compare_exchange_weak\<close>, which may fail
  although \<^verbatim>\<open>state_\<close> holds the expected value. With no interference at all, but every
  exchange failing spuriously, \<^verbatim>\<open>await_suspend\<close> on a fresh promise never returns.
\<close>

theorem weak_exchange_may_spin:
  "single_external_actor no_interference \<and>
   await_suspend False no_interference always_spurious (Promise_ctor (Nothing :: (nat, nat) Try)) = None"
  by (simp add: single_external_actor_none await_suspend_def Promise_ctor_def cas_loop_spins)

text \<open>
  C9, amended. When the interference is that of the single external actor (at most one
  change of \<^verbatim>\<open>state_\<close>, along EMPTY to DETACHED or EMPTY to HAS_AWAITER) and the weak
  compare-exchange fails spuriously only finitely often, \<^verbatim>\<open>await_suspend\<close> returns, and it
  has executed at most two compare-exchange operations more than there were spurious
  failures: one retry for the other actor's transition and one for each spurious failure.
\<close>

theorem finalize_retries_bounded:
  assumes actor: "single_external_actor env" and fin: "finite {n. spur n}"
  shows "\<exists>y. await_suspend nd env spur p = Some y \<and>
           (\<forall>r. y = Inr r \<longrightarrow> cas_attempts r \<le> card {n. spur n} + 2)"
proof -
  let ?B = "{i. 0 \<le> i \<and> (spur i \<or> \<not> quiet (env i))}"
  from actor obtain j where j: "\<And>n. n = j \<or> quiet (env n)"
    unfolding single_external_actor_def by blast
  have sub: "?B \<subseteq> insert j {n. spur n}" using j by auto
  have finB: "finite ?B" by (rule finite_subset[OF sub]) (simp add: fin)
  have "card ?B \<le> card (insert j {n. spur n})"
    by (rule card_mono[OF _ sub]) (simp add: fin)
  also have "\<dots> \<le> Suc (card {n. spur n})"
    using fin by (simp add: card_insert_if)
  finally have cardB: "card ?B \<le> Suc (card {n. spur n})" .
  from cas_loop_terminates[OF finB refl, of nd "[]" p]
  obtain y where y: "cas_loop nd env spur 0 [] p (state_m p) = Some y"
    and bound: "\<forall>r. y = Inr r \<longrightarrow> cas_attempts r \<le> 0 + card ?B + 1"
    by blast
  show ?thesis
  proof (cases y)
    case (Inl e)
    with y show ?thesis by (simp add: await_suspend_def)
  next
    case (Inr l)
    with bound cardB have "cas_attempts l \<le> card {n. spur n} + 2" by simp
    with y Inr show ?thesis by (simp add: await_suspend_def)
  qed
qed

text \<open>
  The awaiter registers before the first exchange and the first two exchanges fail
  spuriously: the third succeeds.
\<close>

theorem finalize_retries_bounded_witness:
  "(let R = \<lparr>returned = True, observed = HAS_AWAITER, observations = [EMPTY, HAS_AWAITER, HAS_AWAITER],
             cas_attempts = 3, cas_writes = [(HAS_AWAITER, HAS_RESULT)], resumed = [7],
             after = \<lparr>result_m = Nothing, state_m = HAS_RESULT, awaiter_m = 7, executor_m = 0,
                      result_writes = 0\<rparr>\<rparr>
    in single_external_actor (once 0 (registerAwaiter 7)) \<and> finite {n. spurious_first 2 n} \<and>
       card {n. spurious_first 2 n} = 2 \<and>
       await_suspend False (once 0 (registerAwaiter 7)) (spurious_first 2)
         (Promise_ctor (Nothing :: (nat, nat) Try)) = Some (Inr R) \<and>
       cas_attempts R \<le> card {n. spurious_first 2 n} + 2)"
proof -
  let ?R = "\<lparr>returned = True, observed = HAS_AWAITER, observations = [EMPTY, HAS_AWAITER, HAS_AWAITER],
             cas_attempts = 3, cas_writes = [(HAS_AWAITER, HAS_RESULT)], resumed = [7],
             after = \<lparr>result_m = (Nothing :: (nat, nat) Try), state_m = HAS_RESULT, awaiter_m = 7,
                      executor_m = 0, result_writes = 0\<rparr>\<rparr>"
  have actor: "single_external_actor (once 0 (registerAwaiter 7))"
    by (rule single_external_actor_once) (rule I1_external_registerAwaiter)
  have fin: "finite {n. spurious_first 2 n}" by (rule finite_spurious_first)
  have run: "await_suspend False (once 0 (registerAwaiter 7)) (spurious_first 2)
         (Promise_ctor (Nothing :: (nat, nat) Try)) = Some (Inr ?R)"
    by (simp add: await_suspend_def Promise_ctor_def cas_loop_retry cas_loop_success once_def
        registerAwaiter_def spurious_first_def interfere_def eval_nat_numeral)
  from finalize_retries_bounded[OF actor fin, of False "Promise_ctor (Nothing :: (nat, nat) Try)"]
    run actor fin
  show ?thesis by (simp add: Let_def card_spurious_first)
qed

section \<open>The assertion\<close>

text \<open>
  C10. If \<^verbatim>\<open>state_\<close> is not yet HAS_RESULT when \<^verbatim>\<open>await_suspend\<close> starts (only the final
  suspend point stores HAS_RESULT, and it runs once) and the other threads change
  \<^verbatim>\<open>state_\<close> only along EMPTY to DETACHED or EMPTY to HAS_AWAITER, then
  \<^verbatim>\<open>DCHECK(state != State::HAS_RESULT)\<close> does not fail and the loop never has HAS_RESULT in
  \<^verbatim>\<open>state\<close>, in either build mode and whatever the spurious failures.
\<close>

theorem assertion_never_fires:
  assumes "state_m p \<noteq> HAS_RESULT" and "\<forall>n. I1_external (env n)"
  shows "await_suspend nd env spur p \<noteq> Some (Inl DCHECK_failed) \<and>
         (\<forall>r. await_suspend nd env spur p = Some (Inr r) \<longrightarrow> HAS_RESULT \<notin> set (observations r))"
proof (cases "cas_loop nd env spur 0 [] p (state_m p)")
  case None
  then show ?thesis by (simp add: await_suspend_def)
next
  case (Some y)
  from cas_loop_never_sees_result[OF Some assms(2)] assms(1)
  have "y \<noteq> Inl DCHECK_failed \<and> (\<forall>r. y = Inr r \<longrightarrow> HAS_RESULT \<notin> set (observations r))" by simp
  with Some show ?thesis
    by (cases y) (auto simp add: await_suspend_def)
qed

text \<open>The awaiter registers during the loop: the loop sees EMPTY, then HAS_AWAITER.\<close>

theorem assertion_never_fires_witness:
  "(let R = \<lparr>returned = True, observed = HAS_AWAITER, observations = [EMPTY, HAS_AWAITER],
             cas_attempts = 2, cas_writes = [(HAS_AWAITER, HAS_RESULT)], resumed = [7],
             after = \<lparr>result_m = Nothing, state_m = HAS_RESULT, awaiter_m = 7, executor_m = 0,
                      result_writes = 0\<rparr>\<rparr>
    in state_m (Promise_ctor (Nothing :: (nat, nat) Try)) \<noteq> HAS_RESULT \<and>
       (\<forall>n. I1_external (once 0 (registerAwaiter 7) n)) \<and>
       await_suspend False (once 0 (registerAwaiter 7)) never_spurious
         (Promise_ctor (Nothing :: (nat, nat) Try)) = Some (Inr R) \<and>
       HAS_RESULT \<notin> set (observations R))"
proof -
  let ?p0 = "Promise_ctor (Nothing :: (nat, nat) Try)"
  have start: "state_m ?p0 \<noteq> HAS_RESULT" by (simp add: Promise_ctor_def)
  have legal: "\<forall>n. I1_external (once 0 (registerAwaiter 7) n)"
    by (simp add: once_def I1_external_id I1_external_registerAwaiter)
  have run: "await_suspend False (once 0 (registerAwaiter 7)) never_spurious ?p0
      = Some (Inr \<lparr>returned = True, observed = HAS_AWAITER, observations = [EMPTY, HAS_AWAITER],
             cas_attempts = 2, cas_writes = [(HAS_AWAITER, HAS_RESULT)], resumed = [7],
             after = \<lparr>result_m = Nothing, state_m = HAS_RESULT, awaiter_m = 7, executor_m = 0,
                      result_writes = 0\<rparr>\<rparr>)"
    by (simp add: await_suspend_def Promise_ctor_def cas_loop_retry cas_loop_success once_def
        registerAwaiter_def never_spurious_def interfere_def numeral_2_eq_2)
  from assertion_never_fires[OF start legal, of False never_spurious] run start legal
  show ?thesis by (simp add: Let_def)
qed

end
